theory Spec2Isabelle
  imports
    Main
    "HOL-Library.AList"
    "HOL-Library.Char_ord"
    "HOL-Library.List_Lexorder"
    "HOL-Library.Product_Lexorder"
    "HOL-Library.Multiset"
begin

section \<open>Values\<close>

text \<open>
  The history file of \<^verbatim>\<open>app.py\<close> holds JSON, and every entry the program handles is
  a Python \<^verbatim>\<open>dict\<close> obtained from JSON. The values of the model are the JSON values
  \<^verbatim>\<open>null\<close>, integers, strings, arrays and objects. An object is a Python dict: an
  association list in insertion order whose keys are pairwise distinct. JSON
  \<^verbatim>\<open>true\<close>/\<^verbatim>\<open>false\<close> and numbers with a fraction are not part of the model, and
  strings are ASCII text (one \<^typ>\<open>char\<close> per code point).
\<close>

datatype json =
    JNull
  | JInt int
  | JStr string
  | JList "json list"
  | JObj "(string \<times> json) list"

type_synonym entry = "(string \<times> json) list"

text \<open>
  The exceptions that the functions of the history store let escape. On ill-typed data:
  \<^verbatim>\<open>AttributeError\<close> (a method such as \<^verbatim>\<open>get\<close>, \<^verbatim>\<open>items\<close>, \<^verbatim>\<open>upper\<close> or \<^verbatim>\<open>strip\<close>
  is missing on the value) and \<^verbatim>\<open>TypeError\<close> (the value is not iterable, or not hashable).
  On reading the file: \<^verbatim>\<open>OSError\<close> (the path exists and cannot be opened for reading) and
  \<^verbatim>\<open>UnicodeDecodeError\<close> (the bytes of the file are not UTF-8).
\<close>

datatype error = AttributeError | TypeError | OSError | UnicodeDecodeError

text \<open>Python's truth value of a value, and \<^verbatim>\<open>x or y\<close>.\<close>

fun truthy :: "json \<Rightarrow> bool" where
  "truthy JNull = False"
| "truthy (JInt i) = (i \<noteq> 0)"
| "truthy (JStr s) = (s \<noteq> [])"
| "truthy (JList xs) = (xs \<noteq> [])"
| "truthy (JObj kvs) = (kvs \<noteq> [])"

definition py_or :: "json \<Rightarrow> json \<Rightarrow> json" where
  "py_or x y = (if truthy x then x else y)"

text \<open>\<^verbatim>\<open>d.get(k)\<close> on a dict: the value stored under the key, \<^verbatim>\<open>None\<close> when there is none.\<close>

definition dict_get :: "entry \<Rightarrow> string \<Rightarrow> json" where
  "dict_get d k = (case map_of d k of None \<Rightarrow> JNull | Some v \<Rightarrow> v)"

text \<open>
  \<^verbatim>\<open>d[k] = v\<close> is \<^const>\<open>AList.update\<close>: an existing key keeps its position, a new key goes
  to the end. A dict built from a sequence of pairs (a dict comprehension, \<^verbatim>\<open>dict(items)\<close>)
  stores them one after the other, so a later pair overwrites an earlier one with the
  same key. \<^verbatim>\<open>{**a, **b}\<close> stores the items of \<^verbatim>\<open>b\<close> into a copy of \<^verbatim>\<open>a\<close>.
\<close>

definition dict_merge :: "('k \<times> 'v) list \<Rightarrow> ('k \<times> 'v) list \<Rightarrow> ('k \<times> 'v) list" where
  "dict_merge a b = fold (\<lambda>(k, v). AList.update k v) b a"

definition py_dict :: "('k \<times> 'v) list \<Rightarrow> ('k \<times> 'v) list" where
  "py_dict items = dict_merge [] items"

subsection \<open>Strings\<close>

text \<open>\<^verbatim>\<open>str.upper\<close> and \<^verbatim>\<open>str.strip\<close> on ASCII text.\<close>

definition upper_char :: "char \<Rightarrow> char" where
  "upper_char c =
     (if 97 \<le> (of_char c :: nat) \<and> (of_char c :: nat) \<le> 122
      then char_of ((of_char c :: nat) - 32) else c)"

definition upper :: "string \<Rightarrow> string" where
  "upper s = map upper_char s"

definition is_space :: "char \<Rightarrow> bool" where
  "is_space c =
     ((9 \<le> (of_char c :: nat) \<and> (of_char c :: nat) \<le> 13)
      \<or> (28 \<le> (of_char c :: nat) \<and> (of_char c :: nat) \<le> 32))"

definition strip :: "string \<Rightarrow> string" where
  "strip s = rev (dropWhile is_space (rev (dropWhile is_space s)))"

text \<open>\<^verbatim>\<open>str(i)\<close> of an integer: its decimal digits.\<close>

function nat_digits :: "nat \<Rightarrow> string" where
  "nat_digits n =
     (if n < 10 then [char_of (48 + n)]
      else nat_digits (n div 10) @ [char_of (48 + n mod 10)])"
  by pat_completeness auto
termination
  by (relation "measure id") auto

definition str_int :: "int \<Rightarrow> string" where
  "str_int i = (if i < 0 then CHR ''-'' # nat_digits (nat (- i)) else nat_digits (nat i))"

text \<open>
  \<^verbatim>\<open>repr\<close> of a string: single quotes, unless the string has a single quote and no
  double quote; the quote and the backslash are escaped, tab, newline and return have
  their letters, the other control characters are written \<^verbatim>\<open>\xhh\<close>.
\<close>

definition hex_digit :: "nat \<Rightarrow> char" where
  "hex_digit n = (if n < 10 then char_of (48 + n) else char_of (87 + n))"

definition repr_char :: "char \<Rightarrow> char \<Rightarrow> string" where
  "repr_char q c =
     (if c = q \<or> c = CHR 0x5C then [CHR 0x5C, c]
      else if c = CHR 0x09 then [CHR 0x5C, CHR ''t'']
      else if c = CHR 0x0A then [CHR 0x5C, CHR ''n'']
      else if c = CHR 0x0D then [CHR 0x5C, CHR ''r'']
      else if (of_char c :: nat) < 32 \<or> (of_char c :: nat) = 127
      then [CHR 0x5C, CHR ''x'', hex_digit ((of_char c :: nat) div 16),
            hex_digit ((of_char c :: nat) mod 16)]
      else [c])"

definition repr_str :: "string \<Rightarrow> string" where
  "repr_str s =
     (let q = (if CHR 0x27 \<in> set s \<and> CHR 0x22 \<notin> set s then CHR 0x22 else CHR 0x27)
      in q # concat (map (repr_char q) s) @ [q])"

fun join_comma :: "string list \<Rightarrow> string" where
  "join_comma [] = []"
| "join_comma [s] = s"
| "join_comma (s # t # ss) = s @ '', '' @ join_comma (t # ss)"

fun py_repr :: "json \<Rightarrow> string" where
  "py_repr JNull = ''None''"
| "py_repr (JInt i) = str_int i"
| "py_repr (JStr s) = repr_str s"
| "py_repr (JList xs) = ''['' @ join_comma (map py_repr xs) @ '']''"
| "py_repr (JObj kvs) =
     ''{'' @ join_comma (map (\<lambda>kv. repr_str (fst kv) @ '': '' @ py_repr (snd kv)) kvs) @ ''}''"

text \<open>\<^verbatim>\<open>str(v)\<close>: a string is itself, any other value is its \<^verbatim>\<open>repr\<close>.\<close>

fun py_str :: "json \<Rightarrow> string" where
  "py_str (JStr s) = s"
| "py_str v = py_repr v"

text \<open>
  \<^verbatim>\<open>for x in v\<close>: the elements of a list, the keys of a dict, the characters of a string;
  \<^verbatim>\<open>None\<close> and integers are not iterable.
\<close>

fun py_iter :: "json \<Rightarrow> error + json list" where
  "py_iter (JList xs) = Inr xs"
| "py_iter (JObj kvs) = Inr (map (\<lambda>kv. JStr (fst kv)) kvs)"
| "py_iter (JStr s) = Inr (map (\<lambda>c. JStr [c]) s)"
| "py_iter _ = Inl TypeError"

text \<open>Lists and dicts are not hashable; \<^verbatim>\<open>None\<close>, integers and strings are.\<close>

fun hashable :: "json \<Rightarrow> bool" where
  "hashable (JList xs) = False"
| "hashable (JObj kvs) = False"
| "hashable _ = True"

section \<open>The fingerprint of an entry\<close>

text \<open>
  \<^verbatim>\<open>entry_fingerprint\<close> returns the tuple of the upper-cased method, the stripped URL, the
  sorted items of the normalised headers, and the body. \<^verbatim>\<open>entry.get(...) or d\<close> replaces
  every falsy value by the default \<^verbatim>\<open>d\<close>; a truthy value of a wrong kind has none of
  \<^verbatim>\<open>items\<close>, \<^verbatim>\<open>upper\<close>, \<^verbatim>\<open>strip\<close> and raises \<^verbatim>\<open>AttributeError\<close>. The body is returned
  as it is, whatever its kind.
\<close>

type_synonym fingerprint = "string \<times> string \<times> (string \<times> string) list \<times> json"

fun items :: "json \<Rightarrow> error + (string \<times> json) list" where
  "items (JObj kvs) = Inr kvs"
| "items _ = Inl AttributeError"

fun str_method :: "(string \<Rightarrow> string) \<Rightarrow> json \<Rightarrow> error + string" where
  "str_method f (JStr s) = Inr (f s)"
| "str_method f _ = Inl AttributeError"

definition normalized_headers :: "(string \<times> json) list \<Rightarrow> (string \<times> string) list" where
  "normalized_headers hs = py_dict (map (\<lambda>(k, v). (strip k, strip (py_str v))) hs)"

definition entry_fingerprint :: "entry \<Rightarrow> error + fingerprint" where
  "entry_fingerprint entry =
     (case items (py_or (dict_get entry ''headers'') (JObj [])) of
        Inl e \<Rightarrow> Inl e
      | Inr headers \<Rightarrow>
          let headers_tuple = sort (normalized_headers headers) in
          (case str_method upper (py_or (dict_get entry ''method'') (JStr '''')) of
             Inl e \<Rightarrow> Inl e
           | Inr m \<Rightarrow>
               (case str_method strip (py_or (dict_get entry ''url'') (JStr '''')) of
                  Inl e \<Rightarrow> Inl e
                | Inr u \<Rightarrow>
                    Inr (m, u, headers_tuple, py_or (dict_get entry ''body'') (JStr '''')))))"

section \<open>The history file\<close>

text \<open>
  What \<^verbatim>\<open>load_history\<close> finds at \<^verbatim>\<open>HISTORY_PATH\<close>, in the order in which lines 29 to 35
  meet it:
  \<^item> \<open>Absent\<close>: there is no file, \<^verbatim>\<open>exists()\<close> is false;
  \<^item> \<open>Unopenable\<close>: the path exists and \<^verbatim>\<open>open("r")\<close> raises \<^verbatim>\<open>OSError\<close> (a directory, a
    file without read permission);
  \<^item> \<open>NotUTF8\<close>: the file opens and its bytes are not UTF-8 text, so that reading the
    handle inside \<^verbatim>\<open>json.load\<close> raises \<^verbatim>\<open>UnicodeDecodeError\<close>;
  \<^item> \<open>Malformed\<close>: the text is not JSON, \<^verbatim>\<open>json.load\<close> raises \<^verbatim>\<open>JSONDecodeError\<close>;
  \<^item> \<open>Stored v\<close>: \<^verbatim>\<open>json.load\<close> returns the value \<open>v\<close>.

  The \<^verbatim>\<open>except\<close> clause names \<^verbatim>\<open>json.JSONDecodeError\<close> only. \<^verbatim>\<open>OSError\<close> and
  \<^verbatim>\<open>UnicodeDecodeError\<close> are no subclasses of it and leave the function.
  \<^verbatim>\<open>save_history\<close> dumps the list of entries, which a later \<^verbatim>\<open>json.load\<close> decodes to the
  same list.
\<close>

datatype persisted = Absent | Unopenable | NotUTF8 | Malformed | Stored json

text \<open>
  The loop of \<^verbatim>\<open>load_history\<close>. An element that is no dict has no \<^verbatim>\<open>get\<close>; the test
  \<^verbatim>\<open>fingerprint in seen\<close> hashes the tuple, hence the body.

  Python compares fingerprints with \<^verbatim>\<open>==\<close>; on strings and integers this is equality
  of the values. It differs from equality of the modelled values only where dicts are
  compared, which \<^verbatim>\<open>==\<close> does regardless of the order of their keys. Every fingerprint
  that enters \<^verbatim>\<open>seen\<close> has a hashable body, and so has the fingerprint of every entry that
  \<^verbatim>\<open>load_history\<close> returns: wherever the program compares two fingerprints, one of them
  has a string or an integer as its body.
\<close>

definition hashable_fingerprint :: "fingerprint \<Rightarrow> bool" where
  "hashable_fingerprint fingerprint = (case fingerprint of (m, u, hs, body) \<Rightarrow> hashable body)"

fun load_loop :: "json list \<Rightarrow> entry list \<Rightarrow> fingerprint set \<Rightarrow> error + entry list" where
  "load_loop [] unique seen = Inr unique"
| "load_loop (JObj entry # entries) unique seen =
     (case entry_fingerprint entry of
        Inl e \<Rightarrow> Inl e
      | Inr fingerprint \<Rightarrow>
          if \<not> hashable_fingerprint fingerprint then Inl TypeError
          else if fingerprint \<in> seen then load_loop entries unique seen
          else load_loop entries (unique @ [entry]) (insert fingerprint seen))"
| "load_loop (_ # entries) unique seen = Inl AttributeError"

fun load_history :: "persisted \<Rightarrow> error + entry list" where
  "load_history Absent = Inr []"
| "load_history Unopenable = Inl OSError"
| "load_history NotUTF8 = Inl UnicodeDecodeError"
| "load_history Malformed = Inr []"
| "load_history (Stored entries) =
     (case py_iter entries of
        Inl e \<Rightarrow> Inl e
      | Inr es \<Rightarrow> load_loop es [] {})"

definition save_history :: "entry list \<Rightarrow> persisted" where
  "save_history history = Stored (JList (map JObj history))"

section \<open>Operations on the history\<close>

text \<open>The id under which \<^verbatim>\<open>remove_entry\<close> and \<^verbatim>\<open>reorder_entries\<close> know an item: \<^verbatim>\<open>str(item.get("id"))\<close>.\<close>

definition id_str :: "entry \<Rightarrow> string" where
  "id_str item = py_str (dict_get item ''id'')"

text \<open>
  Every operation reads the file, and returns the file it leaves behind together with
  its result. \<^verbatim>\<open>remove_entry\<close> writes only when the filter dropped something.
\<close>

definition remove_entry :: "persisted \<Rightarrow> string \<Rightarrow> error + (persisted \<times> bool)" where
  "remove_entry st entry_id =
     (case load_history st of
        Inl e \<Rightarrow> Inl e
      | Inr history \<Rightarrow>
          let new_history = filter (\<lambda>item. id_str item \<noteq> entry_id) history in
          if length new_history = length history then Inr (st, False)
          else Inr (save_history new_history, True))"

text \<open>
  \<^verbatim>\<open>reorder_entries\<close>: \<^verbatim>\<open>by_id\<close> is only looked up, so it is a map; it is filled item by
  item, a later item replacing an earlier one with the same id. The first loop runs over
  \<^verbatim>\<open>order\<close> (a list of strings), the second over the history; \<^verbatim>\<open>if entry\<close> holds for
  a dict that is found and not empty.
\<close>

definition by_id_of :: "entry list \<Rightarrow> (string \<rightharpoonup> entry)" where
  "by_id_of history = fold (\<lambda>item m. m(id_str item \<mapsto> item)) history Map.empty"

fun reorder_first ::
  "(string \<rightharpoonup> entry) \<Rightarrow> string list \<Rightarrow> entry list \<Rightarrow> string set \<Rightarrow> entry list \<times> string set"
where
  "reorder_first by_id [] new_history seen = (new_history, seen)"
| "reorder_first by_id (entry_id # order) new_history seen =
     (case by_id entry_id of
        None \<Rightarrow> reorder_first by_id order new_history seen
      | Some entry \<Rightarrow>
          if entry \<noteq> [] \<and> entry_id \<notin> seen
          then reorder_first by_id order (new_history @ [entry]) (insert entry_id seen)
          else reorder_first by_id order new_history seen)"

fun reorder_rest :: "entry list \<Rightarrow> entry list \<Rightarrow> string set \<Rightarrow> entry list" where
  "reorder_rest [] new_history seen = new_history"
| "reorder_rest (entry # history) new_history seen =
     (let entry_id = id_str entry in
      if entry_id \<notin> seen
      then reorder_rest history (new_history @ [entry]) (insert entry_id seen)
      else reorder_rest history new_history seen)"

definition reorder_entries :: "persisted \<Rightarrow> string list \<Rightarrow> error + (persisted \<times> entry list)" where
  "reorder_entries st order =
     (case load_history st of
        Inl e \<Rightarrow> Inl e
      | Inr history \<Rightarrow>
          let (new_history, seen) = reorder_first (by_id_of history) order [] {};
              new_history = reorder_rest history new_history seen
          in Inr (save_history new_history, new_history))"

text \<open>
  \<^verbatim>\<open>record_entry\<close>: the index of the first item with the fingerprint of the new entry,
  the merge into that item or the append at the end, the slice \<^verbatim>\<open>history[:100]\<close>, the
  save. It returns the entry it was given.
\<close>

fun next_index :: "('a \<Rightarrow> bool) \<Rightarrow> 'a list \<Rightarrow> nat option" where
  "next_index p [] = None"
| "next_index p (x # xs) = (if p x then Some 0 else map_option Suc (next_index p xs))"

definition merge_entry :: "entry \<Rightarrow> entry \<Rightarrow> entry" where
  "merge_entry previous entry =
     (let merged = dict_merge previous entry;
          merged = AList.update ''id''
                     (py_or (dict_get previous ''id'') (dict_get entry ''id'')) merged
      in if \<not> truthy (dict_get merged ''name'') \<and> truthy (dict_get previous ''name'')
         then AList.update ''name'' (dict_get previous ''name'') merged
         else merged)"

definition record_entry :: "persisted \<Rightarrow> entry \<Rightarrow> error + (persisted \<times> entry)" where
  "record_entry st entry =
     (case load_history st of
        Inl e \<Rightarrow> Inl e
      | Inr history \<Rightarrow>
          (case entry_fingerprint entry of
             Inl e \<Rightarrow> Inl e
           | Inr fingerprint \<Rightarrow>
               let history =
                     (case next_index (\<lambda>item. entry_fingerprint item = Inr fingerprint) history of
                        Some existing_index \<Rightarrow>
                          history[existing_index :=
                                    merge_entry (history ! existing_index) entry]
                      | None \<Rightarrow> history @ [entry])
               in Inr (save_history (take 100 history), entry)))"

text \<open>An entry that \<^verbatim>\<open>load_history\<close> accepts: its fingerprint can be computed and hashed.\<close>

definition loadable :: "entry \<Rightarrow> bool" where
  "loadable entry =
     (case entry_fingerprint entry of Inl e \<Rightarrow> False | Inr f \<Rightarrow> hashable_fingerprint f)"

text \<open>The elements of a list in the order of their first occurrence, each of them once.\<close>

definition first_occurrences :: "'a list \<Rightarrow> 'a list" where
  "first_occurrences xs = rev (remdups (rev xs))"

text \<open>
  What the first loop of \<^verbatim>\<open>reorder_entries\<close> appends for one id: the entry that \<^verbatim>\<open>by_id\<close>
  has for it, when there is one and it is truthy.
\<close>

definition found :: "(string \<rightharpoonup> entry) \<Rightarrow> string \<Rightarrow> entry list" where
  "found by_id i = (case by_id i of None \<Rightarrow> [] | Some e \<Rightarrow> if e \<noteq> [] then [e] else [])"

section \<open>The external request\<close>

text \<open>
  \<^verbatim>\<open>send_external_request\<close> builds a request and opens it with \<^verbatim>\<open>urllib\<close>. The library is a
  parameter of the model: \<^verbatim>\<open>urlopen\<close> stands for the library calls of lines 125 to 136
  (\<^verbatim>\<open>Request(...)\<close>, \<^verbatim>\<open>add_header\<close>, \<^verbatim>\<open>urlopen\<close>, \<^verbatim>\<open>read\<close>) and maps the request to what
  they do:
  \<^item> \<open>Response\<close>: a status line was read; status, header items and body bytes;
  \<^item> \<open>HTTPError\<close>: \<^verbatim>\<open>urlopen\<close> raises \<^verbatim>\<open>HTTPError\<close>; code, headers (or \<^verbatim>\<open>None\<close>), body bytes;
  \<^item> \<open>URLError\<close>: \<^verbatim>\<open>urlopen\<close> raises \<^verbatim>\<open>URLError\<close>, the class in which the library wraps the
    \<^verbatim>\<open>OSError\<close> of connecting and sending (name resolution, refused connection, TLS); the
    argument is the text that the f-string prints for \<^verbatim>\<open>exc.reason\<close>;
  \<^item> \<open>Raised c\<close>: an exception of any other class \<open>c\<close>. The library does not wrap what
    reading the response raises (\<^verbatim>\<open>RemoteDisconnected\<close> when the server closes the connection
    before a status line, \<^verbatim>\<open>TimeoutError\<close>, \<^verbatim>\<open>ConnectionResetError\<close>), and \<^verbatim>\<open>Request(...)\<close>
    raises \<^verbatim>\<open>ValueError\<close> for a URL without a scheme, before the \<^verbatim>\<open>try\<close>.
  The two \<^verbatim>\<open>except\<close> clauses name \<^verbatim>\<open>HTTPError\<close> and \<^verbatim>\<open>URLError\<close>; every other exception leaves
  the function. \<^verbatim>\<open>get_content_charset\<close> (the charset that the headers announce) and
  \<^verbatim>\<open>decode\<close> are parameters as well: \<^verbatim>\<open>bytes.decode(charset, errors="replace")\<close> returns a text
  for every codec that exists and raises \<^verbatim>\<open>LookupError\<close> for a charset that names none
  (\<open>None\<close> in the model). Bytes are strings of the model; on ASCII text \<^verbatim>\<open>encode("utf-8")\<close>
  changes nothing.
\<close>

datatype body = NoBody | Text string | Bytes string

record request =
  req_url :: string
  req_data :: "string option"
  req_method :: string
  req_headers :: "(string \<times> string) list"

datatype outcome =
    Response int "(string \<times> string) list" string
  | HTTPError int "(string \<times> string) list option" string
  | URLError string
  | Raised string

datatype send_error = Uncaught string | LookupError

definition build_request :: "string \<Rightarrow> string \<Rightarrow> (string \<times> string) list \<Rightarrow> body \<Rightarrow> request" where
  "build_request method url headers body =
     (let data = (case body of
                    NoBody \<Rightarrow> None
                  | Text s \<Rightarrow> if s \<noteq> [] then Some s else None
                  | Bytes b \<Rightarrow> if b \<noteq> [] then Some b else None)
      in \<lparr>req_url = url, req_data = data, req_method = upper method, req_headers = headers\<rparr>)"

definition charset_or_utf8 :: "string option \<Rightarrow> string" where
  "charset_or_utf8 charset =
     (case charset of None \<Rightarrow> ''utf-8'' | Some c \<Rightarrow> if c \<noteq> [] then c else ''utf-8'')"

text \<open>Line 147 and the return after it: the decoded body, or the \<^verbatim>\<open>LookupError\<close> of \<^verbatim>\<open>decode\<close>.\<close>

definition decoded ::
  "(string \<Rightarrow> string \<Rightarrow> string option) \<Rightarrow> int \<Rightarrow> (string \<times> string) list \<Rightarrow>
   string option \<Rightarrow> string \<Rightarrow> send_error + (int \<times> (string \<times> string) list \<times> string)"
where
  "decoded decode status_code response_headers charset response_body =
     (case decode (charset_or_utf8 charset) response_body of
        None \<Rightarrow> Inl LookupError
      | Some decoded_body \<Rightarrow> Inr (status_code, response_headers, decoded_body))"

definition send_external_request ::
  "(request \<Rightarrow> outcome) \<Rightarrow> ((string \<times> string) list \<Rightarrow> string option) \<Rightarrow>
   (string \<Rightarrow> string \<Rightarrow> string option) \<Rightarrow>
   string \<Rightarrow> string \<Rightarrow> (string \<times> string) list \<Rightarrow> body \<Rightarrow>
   send_error + (int \<times> (string \<times> string) list \<times> string)"
where
  "send_external_request urlopen get_content_charset decode method url headers body =
     (case urlopen (build_request method url headers body) of
        Response status response_headers response_body \<Rightarrow>
          decoded decode status (py_dict response_headers)
            (get_content_charset response_headers) response_body
      | HTTPError code exc_headers response_body \<Rightarrow>
          (case exc_headers of
             Some hs \<Rightarrow>
               if hs \<noteq> []
               then decoded decode code (py_dict hs) (get_content_charset hs) response_body
               else decoded decode code [] None response_body
           | None \<Rightarrow> decoded decode code [] None response_body)
      | URLError reason \<Rightarrow> Inr (599, [], ''Request failed: '' @ reason)
      | Raised c \<Rightarrow> Inl (Uncaught c))"

section \<open>Sample data\<close>

text \<open>
  The entry that the handler of \<^verbatim>\<open>/api/send\<close> builds before it calls \<^verbatim>\<open>record_entry\<close>,
  and the data of the examples below.
\<close>

definition new_entry ::
  "string \<Rightarrow> string \<Rightarrow> string \<Rightarrow> string \<Rightarrow> (string \<times> json) list \<Rightarrow> string \<Rightarrow> int \<Rightarrow> string \<Rightarrow> entry"
where
  "new_entry ident timestamp method url headers body status name =
     [(''id'', JStr ident), (''timestamp'', JStr timestamp), (''method'', JStr method),
      (''url'', JStr url), (''headers'', JObj headers), (''body'', JStr body),
      (''response_status'', JInt status), (''name'', JStr name)]"

definition sample_a :: entry where
  "sample_a = new_entry ''X'' ''2024-01-01T00:00:00+00:00'' ''GET'' ''http://a'' [] '''' 200 ''keep''"

definition sample_a_again :: entry where
  "sample_a_again = new_entry ''Y'' ''2024-01-02T00:00:00+00:00'' ''GET'' ''http://a'' [] '''' 404 ''''"

definition sample_b :: entry where
  "sample_b = new_entry ''Z'' ''2024-01-03T00:00:00+00:00'' ''POST'' ''http://b''
                [(''Accept'', JStr ''text/html'')] ''{}'' 201 ''''"

definition sample_c :: entry where
  "sample_c = new_entry ''W'' ''2024-01-04T00:00:00+00:00'' ''GET'' ''http://c'' [] '''' 599 ''''"

definition sample_empty_id :: entry where
  "sample_empty_id = new_entry '''' ''2024-01-05T00:00:00+00:00'' ''GET'' ''http://a'' [] '''' 200 ''keep''"

definition sample_partial :: entry where
  "sample_partial = [(''method'', JStr ''get''), (''url'', JStr ''http://a''),
                     (''response_status'', JInt 500)]"

text \<open>
  A history of 100 entries with pairwise different URLs, as 100 calls of \<^verbatim>\<open>/api/send\<close>
  leave it, and the entry of one more call.
\<close>

definition sample_url :: "nat \<Rightarrow> string" where
  "sample_url n = ''http://h/'' @ replicate n CHR ''a''"

definition numbered_entry :: "nat \<Rightarrow> entry" where
  "numbered_entry n =
     new_entry (str_int (int n)) ''2024-01-01T00:00:00+00:00'' ''GET'' (sample_url n) [] '''' 200 ''''"

definition full_history :: "entry list" where
  "full_history = map numbered_entry [0..<100]"

definition fresh_entry :: entry where
  "fresh_entry = numbered_entry 100"

text \<open>
  Two requests with the same two headers, written in the two possible orders. The keys
  \<^verbatim>\<open>"Accept"\<close> and \<^verbatim>\<open>"Accept "\<close> are different keys of the dict and the same key once stripped.
\<close>

definition headers_one_order :: "(string \<times> json) list" where
  "headers_one_order = [(''Accept'', JStr ''text/html''), (''Accept '', JStr ''application/json'')]"

definition headers_other_order :: "(string \<times> json) list" where
  "headers_other_order = [(''Accept '', JStr ''application/json''), (''Accept'', JStr ''text/html'')]"

definition request_one_order :: entry where
  "request_one_order =
     new_entry ''1'' ''2024-01-01T00:00:00+00:00'' ''GET'' ''http://a'' headers_one_order '''' 200 ''''"

definition request_other_order :: entry where
  "request_other_order =
     new_entry ''1'' ''2024-01-01T00:00:00+00:00'' ''GET'' ''http://a'' headers_other_order '''' 200 ''''"

text \<open>
  A network for the examples of \<^verbatim>\<open>send_external_request\<close>. The host of the first URL has
  no address; the server of the second accepts the connection and closes it without an
  answer; the third string is no URL; the server of the fourth answers 404; every other
  request is answered with 200.
\<close>

definition sample_network :: "request \<Rightarrow> outcome" where
  "sample_network r =
     (if req_url r = ''http://bad.invalid/''
      then URLError ''[Errno -2] Name or service not known''
      else if req_url r = ''http://hangup.test/''
      then Raised ''RemoteDisconnected''
      else if req_url r = ''abc''
      then Raised ''ValueError''
      else if req_url r = ''http://a/missing''
      then HTTPError 404 (Some [(''Server'', ''x'')]) ''not here''
      else Response 200 [(''Server'', ''x'')] ''ok'')"

definition sample_charset :: "(string \<times> string) list \<Rightarrow> string option" where
  "sample_charset hs = None"

definition sample_decode :: "string \<Rightarrow> string \<Rightarrow> string option" where
  "sample_decode charset bytes = (if charset = ''utf-8'' then Some bytes else None)"

section \<open>Dicts\<close>

lemma map_of_dict_merge:
  "distinct (map fst b) \<Longrightarrow> map_of (dict_merge a b) = map_of a ++ map_of b"
  unfolding dict_merge_def
proof (induction b arbitrary: a)
  case Nil
  then show ?case by simp
next
  case (Cons kv b)
  obtain k v where kv: "kv = (k, v)" by (cases kv)
  from Cons.prems kv have fresh: "map_of b k = None" and d: "distinct (map fst b)"
    by (auto simp: map_of_eq_None_iff)
  have "map_of (fold (\<lambda>(k, v). AList.update k v) b (AList.update k v a))
        = map_of (AList.update k v a) ++ map_of b"
    by (rule Cons.IH [OF d])
  also have "\<dots> = map_of a ++ map_of ((k, v) # b)"
    using fresh by (auto simp add: update_conv' map_add_def fun_eq_iff split: option.splits)
  finally show ?case by (simp add: kv del: map_of.simps)
qed

lemma dict_get_merge:
  "distinct (map fst b) \<Longrightarrow>
   dict_get (dict_merge a b) k = (case map_of b k of None \<Rightarrow> dict_get a k | Some v \<Rightarrow> v)"
  by (simp add: dict_get_def map_of_dict_merge map_add_def split: option.splits)

lemma dict_get_update:
  "dict_get (AList.update k v d) k' = (if k' = k then v else dict_get d k')"
  by (simp add: dict_get_def update_conv')

section \<open>Loading\<close>

lemma load_loop_Cons:
  assumes "load_loop (x # es) unique seen = Inr h"
  obtains entry f where "x = JObj entry" "entry_fingerprint entry = Inr f"
    "hashable_fingerprint f"
    "f \<in> seen \<Longrightarrow> load_loop es unique seen = Inr h"
    "f \<notin> seen \<Longrightarrow> load_loop es (unique @ [entry]) (insert f seen) = Inr h"
proof (cases x)
  case (JObj entry)
  with assms obtain f where "entry_fingerprint entry = Inr f"
    by (cases "entry_fingerprint entry") simp_all
  with assms JObj that [of entry f] show ?thesis
    by (simp split: if_splits)
qed (use assms in simp_all)

lemma load_loop_distinct:
  "load_loop es unique seen = Inr h \<Longrightarrow> distinct (map entry_fingerprint unique) \<Longrightarrow>
   entry_fingerprint ` set unique = Inr ` seen \<Longrightarrow> distinct (map entry_fingerprint h)"
proof (induction es arbitrary: unique seen)
  case Nil
  then show ?case by simp
next
  case (Cons x es)
  from Cons.prems(1) show ?case
  proof (rule load_loop_Cons)
    fix entry f
    assume f: "entry_fingerprint entry = Inr f"
      and old: "f \<in> seen \<Longrightarrow> load_loop es unique seen = Inr h"
      and new: "f \<notin> seen \<Longrightarrow> load_loop es (unique @ [entry]) (insert f seen) = Inr h"
    show ?thesis
    proof (cases "f \<in> seen")
      case True
      with old Cons.IH Cons.prems show ?thesis by blast
    next
      case False
      have "Inr f \<notin> entry_fingerprint ` set unique"
        using False Cons.prems(3) by auto
      then have "distinct (map entry_fingerprint (unique @ [entry]))"
        using Cons.prems(2) f by auto
      moreover have "entry_fingerprint ` set (unique @ [entry]) = Inr ` insert f seen"
        using Cons.prems(3) f by auto
      ultimately show ?thesis
        using new [OF False] Cons.IH by blast
    qed
  qed
qed

lemma load_history_distinct:
  "load_history st = Inr h \<Longrightarrow> distinct (map entry_fingerprint h)"
proof (cases st)
  case (Stored entries)
  assume "load_history st = Inr h"
  with Stored obtain es where "load_loop es [] {} = Inr h"
    by (auto split: sum.splits)
  from load_loop_distinct [OF this] show ?thesis by simp
qed auto


lemma load_loop_first_occurrences:
  "load_loop (map JObj es) unique seen = Inr h \<Longrightarrow>
   h = unique @ nths es {i. i < length es \<and> entry_fingerprint (es ! i) \<notin> Inr ` seen \<and>
                            (\<forall>j<i. entry_fingerprint (es ! j) \<noteq> entry_fingerprint (es ! i))}"
proof (induction es arbitrary: unique seen)
  case Nil
  then show ?case by simp
next
  case (Cons e es)
  let ?A = "\<lambda>es seen. {i. i < length es \<and> entry_fingerprint (es ! i) \<notin> Inr ` seen \<and>
                            (\<forall>j<i. entry_fingerprint (es ! j) \<noteq> entry_fingerprint (es ! i))}"
  from Cons.prems have "load_loop (JObj e # map JObj es) unique seen = Inr h" by simp
  then show ?case
  proof (rule load_loop_Cons)
    fix entry f
    assume e: "JObj e = JObj entry" and f: "entry_fingerprint entry = Inr f"
      and old: "f \<in> seen \<Longrightarrow> load_loop (map JObj es) unique seen = Inr h"
      and new: "f \<notin> seen \<Longrightarrow> load_loop (map JObj es) (unique @ [entry]) (insert f seen) = Inr h"
    from e f have fe: "entry_fingerprint e = Inr f" by simp
    show ?thesis
    proof (cases "f \<in> seen")
      case True
      from True fe have "entry_fingerprint e \<in> Inr ` seen" by simp
      then have "{j. Suc j \<in> ?A (e # es) seen} = ?A es seen"
        by (auto simp: less_Suc_eq_0_disj)
      moreover have "0 \<notin> ?A (e # es) seen"
        using True fe by simp
      ultimately show ?thesis
        using Cons.IH [OF old [OF True]] by (simp add: nths_Cons)
    next
      case False
      have "{j. Suc j \<in> ?A (e # es) seen} = ?A es (insert f seen)"
        using False fe by (auto simp: less_Suc_eq_0_disj)
      moreover have "0 \<in> ?A (e # es) seen"
        using False fe by auto
      ultimately show ?thesis
        using Cons.IH [OF new [OF False]] e by (simp add: nths_Cons)
    qed
  qed
qed

lemma load_loop_loadable:
  "load_loop es unique seen = Inr h \<Longrightarrow> \<forall>e\<in>set unique. loadable e \<Longrightarrow> \<forall>e\<in>set h. loadable e"
proof (induction es arbitrary: unique seen)
  case Nil
  then show ?case by simp
next
  case (Cons x es)
  from Cons.prems(1) show ?case
  proof (rule load_loop_Cons)
    fix entry f
    assume f: "entry_fingerprint entry = Inr f" "hashable_fingerprint f"
      and old: "f \<in> seen \<Longrightarrow> load_loop es unique seen = Inr h"
      and new: "f \<notin> seen \<Longrightarrow> load_loop es (unique @ [entry]) (insert f seen) = Inr h"
    from f have "loadable entry" by (simp add: loadable_def)
    then have "\<forall>e\<in>set (unique @ [entry]). loadable e"
      using Cons.prems(2) by simp
    then show ?thesis
      using old new Cons.IH Cons.prems(2) by (cases "f \<in> seen") blast+
  qed
qed

lemma load_history_loadable:
  "load_history st = Inr h \<Longrightarrow> e \<in> set h \<Longrightarrow> loadable e"
proof (cases st)
  case (Stored entries)
  assume "load_history st = Inr h" and e: "e \<in> set h"
  with Stored obtain es where "load_loop es [] {} = Inr h"
    by (auto split: sum.splits)
  from load_loop_loadable [OF this] e show ?thesis by simp
qed auto

lemma load_loop_distinct_input:
  "\<forall>e\<in>set es. loadable e \<Longrightarrow> distinct (map entry_fingerprint es) \<Longrightarrow>
   entry_fingerprint ` set es \<inter> Inr ` seen = {} \<Longrightarrow>
   load_loop (map JObj es) unique seen = Inr (unique @ es)"
proof (induction es arbitrary: unique seen)
  case Nil
  then show ?case by simp
next
  case (Cons e es)
  from Cons.prems(1) obtain f where f: "entry_fingerprint e = Inr f" "hashable_fingerprint f"
    by (auto simp: loadable_def split: sum.splits)
  from Cons.prems(3) f have fresh: "f \<notin> seen" by auto
  have "entry_fingerprint ` set es \<inter> Inr ` insert f seen = {}"
    using Cons.prems(2,3) f by auto
  with Cons.IH [of "insert f seen" "unique @ [e]"] Cons.prems
  have "load_loop (map JObj es) (unique @ [e]) (insert f seen) = Inr (unique @ e # es)"
    by simp
  with f fresh show ?case by simp
qed

lemma load_save_history:
  "\<forall>e\<in>set h. loadable e \<Longrightarrow> distinct (map entry_fingerprint h) \<Longrightarrow>
   load_history (save_history h) = Inr h"
  using load_loop_distinct_input [of h "{}" "[]"] by (simp add: save_history_def)

lemma load_loop_returns_iff:
  "(\<exists>h. load_loop xs unique seen = Inr h) \<longleftrightarrow>
   (\<forall>x\<in>set xs. \<exists>entry. x = JObj entry \<and> loadable entry)"
proof (induction xs arbitrary: unique seen)
  case Nil
  then show ?case by simp
next
  case (Cons x xs)
  show ?case
  proof (cases "\<exists>entry. x = JObj entry \<and> loadable entry")
    case True
    then obtain entry where x: "x = JObj entry" and l: "loadable entry" by blast
    from l obtain f where f: "entry_fingerprint entry = Inr f"
      by (cases "entry_fingerprint entry") (simp_all add: loadable_def)
    from l f have hf: "hashable_fingerprint f" by (simp add: loadable_def)
    have "load_loop (x # xs) unique seen =
            (if f \<in> seen then load_loop xs unique seen
             else load_loop xs (unique @ [entry]) (insert f seen))"
      using x f hf by simp
    with True Cons.IH [of unique seen] Cons.IH [of "unique @ [entry]" "insert f seen"]
    show ?thesis by simp
  next
    case False
    have "\<not> (\<exists>h. load_loop (x # xs) unique seen = Inr h)"
    proof
      assume "\<exists>h. load_loop (x # xs) unique seen = Inr h"
      then obtain h where "load_loop (x # xs) unique seen = Inr h" ..
      then show False
      proof (rule load_loop_Cons)
        fix entry f
        assume "x = JObj entry" "entry_fingerprint entry = Inr f" "hashable_fingerprint f"
        with False show False by (simp add: loadable_def)
      qed
    qed
    with False show ?thesis by auto
  qed
qed

text \<open>
  C4 as stated fails: a file that cannot be read as a history makes \<^verbatim>\<open>load_history\<close> raise
  whenever the failure is not a \<^verbatim>\<open>JSONDecodeError\<close>. A file whose bytes are not UTF-8 raises
  \<^verbatim>\<open>UnicodeDecodeError\<close>; a file that holds the JSON number 5, a list with a number in it,
  or an object instead of a list passes both guards and raises in the loop.
\<close>

theorem load_history_raises_on_unreadable:
  "load_history NotUTF8 = Inl UnicodeDecodeError \<and>
   load_history (Stored (JInt 5)) = Inl TypeError \<and>
   load_history (Stored (JList [JInt 5])) = Inl AttributeError \<and>
   load_history (Stored (JObj [(''history'', JList [])])) = Inl AttributeError"
  by simp

text \<open>
  C4, as amended. \<^verbatim>\<open>load_history\<close> returns the empty history, and raises nothing, when the
  history file is absent and when its text is not JSON (\<^verbatim>\<open>json.load\<close> raises
  \<^verbatim>\<open>JSONDecodeError\<close>). These are its only two guards: in every other state of the file it
  returns exactly when the file holds JSON that iterates over dicts whose fingerprints can
  be computed and hashed.
\<close>

theorem load_history_returns:
  "(st = Absent \<or> st = Malformed \<longrightarrow> load_history st = Inr []) \<and>
   ((\<exists>h. load_history st = Inr h) \<longleftrightarrow>
      st = Absent \<or> st = Malformed \<or>
      (\<exists>v xs. st = Stored v \<and> py_iter v = Inr xs \<and>
              (\<forall>x\<in>set xs. \<exists>entry. x = JObj entry \<and> loadable entry)))"
proof (cases st)
  case (Stored v)
  show ?thesis
  proof (cases "py_iter v")
    case (Inl e)
    with Stored show ?thesis by simp
  next
    case (Inr xs)
    with Stored load_loop_returns_iff [of xs "[]" "{}"] show ?thesis by simp
  qed
qed simp_all

theorem load_history_returns_witness:
  "load_history Absent = Inr [] \<and> load_history Malformed = Inr [] \<and>
   py_iter (JList [JObj sample_a]) = Inr [JObj sample_a] \<and> loadable sample_a \<and>
   (\<exists>h. load_history (Stored (JList [JObj sample_a])) = Inr h) \<and>
   \<not> (\<exists>h. load_history (Stored (JList [JInt 5])) = Inr h)"
proof -
  have l: "loadable sample_a" by code_simp
  from load_history_returns [of Absent] load_history_returns [of Malformed]
    load_history_returns [of "Stored (JList [JObj sample_a])"]
    load_history_returns [of "Stored (JList [JInt 5])"] l
  show ?thesis by simp
qed

section \<open>Recording\<close>

lemma entry_fingerprint_Inr_iff:
  "entry_fingerprint e = Inr (m, u, hs, b) \<longleftrightarrow>
     (\<exists>kvs. items (py_or (dict_get e ''headers'') (JObj [])) = Inr kvs \<and>
            hs = sort (normalized_headers kvs)) \<and>
     str_method upper (py_or (dict_get e ''method'') (JStr '''')) = Inr m \<and>
     str_method strip (py_or (dict_get e ''url'') (JStr '''')) = Inr u \<and>
     py_or (dict_get e ''body'') (JStr '''') = b"
  by (auto simp: entry_fingerprint_def Let_def split: sum.splits)

lemma merge_entry_get:
  assumes "distinct (map fst e)" "k \<noteq> ''id''" "k \<noteq> ''name''"
  shows "dict_get (merge_entry p e) k = (case map_of e k of None \<Rightarrow> dict_get p k | Some v \<Rightarrow> v)"
  using assms by (simp add: merge_entry_def Let_def dict_get_update dict_get_merge)

lemma merge_entry_get_cases:
  assumes "distinct (map fst e)" "k \<noteq> ''id''" "k \<noteq> ''name''"
  shows "dict_get (merge_entry p e) k = dict_get e k \<or>
         dict_get (merge_entry p e) k = dict_get p k"
  using merge_entry_get [OF assms, of p] by (simp add: dict_get_def split: option.splits)

lemma entry_fingerprint_merge:
  assumes d: "distinct (map fst e)"
    and p: "entry_fingerprint p = Inr f" and e: "entry_fingerprint e = Inr f"
  shows "entry_fingerprint (merge_entry p e) = Inr f"
proof -
  obtain m u hs b where f: "f = (m, u, hs, b)" by (cases f)
  note P = p [unfolded f entry_fingerprint_Inr_iff]
  note E = e [unfolded f entry_fingerprint_Inr_iff]
  have h: "\<exists>kvs. items (py_or (dict_get (merge_entry p e) ''headers'') (JObj [])) = Inr kvs \<and>
            hs = sort (normalized_headers kvs)"
    using merge_entry_get_cases [OF d, of "''headers''" p] P E by auto
  have m: "str_method upper (py_or (dict_get (merge_entry p e) ''method'') (JStr '''')) = Inr m"
    using merge_entry_get_cases [OF d, of "''method''" p] P E by auto
  have u: "str_method strip (py_or (dict_get (merge_entry p e) ''url'') (JStr '''')) = Inr u"
    using merge_entry_get_cases [OF d, of "''url''" p] P E by auto
  have b: "py_or (dict_get (merge_entry p e) ''body'') (JStr '''') = b"
    using merge_entry_get_cases [OF d, of "''body''" p] P E by auto
  from h m u b show ?thesis
    unfolding f entry_fingerprint_Inr_iff by blast
qed

lemma next_index_None: "next_index p xs = None \<longleftrightarrow> (\<forall>x\<in>set xs. \<not> p x)"
  by (induction xs) auto

lemma next_index_Some:
  "next_index p xs = Some i \<Longrightarrow> i < length xs \<and> p (xs ! i) \<and> (\<forall>j<i. \<not> p (xs ! j))"
proof (induction xs arbitrary: i)
  case Nil
  then show ?case by simp
next
  case (Cons x xs)
  show ?case
  proof (cases "p x")
    case True
    with Cons.prems show ?thesis by simp
  next
    case False
    with Cons.prems obtain k where k: "next_index p xs = Some k" "i = Suc k"
      by auto
    from Cons.IH [OF k(1)] False k(2) show ?thesis
      by (auto simp: less_Suc_eq_0_disj)
  qed
qed

lemma next_index_unique:
  assumes "i < length xs" "p (xs ! i)" "\<forall>j<length xs. p (xs ! j) \<longrightarrow> j = i"
  shows "next_index p xs = Some i"
proof (cases "next_index p xs")
  case None
  with assms(1,2) show ?thesis by (auto simp: next_index_None)
next
  case (Some k)
  from next_index_Some [OF Some] assms(3) show ?thesis using Some by auto
qed

lemma next_index_fingerprint:
  assumes "distinct (map entry_fingerprint h)" "i < length h" "entry_fingerprint (h ! i) = Inr f"
  shows "next_index (\<lambda>item. entry_fingerprint item = Inr f) h = Some i"
proof (rule next_index_unique)
  show "\<forall>j<length h. entry_fingerprint (h ! j) = Inr f \<longrightarrow> j = i"
  proof (intro allI impI)
    fix j assume "j < length h" "entry_fingerprint (h ! j) = Inr f"
    with assms show "j = i"
      using nth_eq_iff_index_eq [of "map entry_fingerprint h" j i] by simp
  qed
qed (use assms in simp_all)

lemma record_entry_merge:
  assumes "load_history st = Inr h" "i < length h"
    "entry_fingerprint (h ! i) = Inr f" "entry_fingerprint entry = Inr f"
  shows "record_entry st entry =
         Inr (save_history (take 100 (h[i := merge_entry (h ! i) entry])), entry)"
proof -
  have "next_index (\<lambda>item. entry_fingerprint item = Inr f) h = Some i"
    using load_history_distinct [OF assms(1)] assms(2,3) by (rule next_index_fingerprint)
  with assms(1,4) show ?thesis by (simp add: record_entry_def)
qed

lemma record_entry_append:
  assumes "load_history st = Inr h" "entry_fingerprint entry = Inr f"
    "Inr f \<notin> entry_fingerprint ` set h"
  shows "record_entry st entry = Inr (save_history (take 100 (h @ [entry])), entry)"
proof -
  have "next_index (\<lambda>item. entry_fingerprint item = Inr f) h = None"
    using assms(3) unfolding next_index_None by (metis imageI)
  with assms(1,2) show ?thesis by (simp add: record_entry_def)
qed

lemma distinct_take_map: "distinct (map f xs) \<Longrightarrow> distinct (map f (take n xs))"
  by (metis distinct_take take_map)

lemma record_entry_distinct:
  assumes d: "distinct (map fst entry)" and r: "record_entry st entry = Inr (st', res)"
  shows "\<exists>h'. st' = save_history h' \<and> distinct (map entry_fingerprint h')"
proof -
  from r obtain h where h: "load_history st = Inr h"
    by (cases "load_history st") (simp_all add: record_entry_def)
  from r h obtain f where f: "entry_fingerprint entry = Inr f"
    by (cases "entry_fingerprint entry") (simp_all add: record_entry_def)
  note dh = load_history_distinct [OF h]
  show ?thesis
  proof (cases "Inr f \<in> entry_fingerprint ` set h")
    case False
    from record_entry_append [OF h f False] r
    have "st' = save_history (take 100 (h @ [entry]))" by simp
    moreover have "distinct (map entry_fingerprint (h @ [entry]))"
      using dh f False by simp
    ultimately show ?thesis using distinct_take_map by blast
  next
    case True
    then obtain i where i: "i < length h" "entry_fingerprint (h ! i) = Inr f"
      by (metis imageE in_set_conv_nth)
    let ?m = "merge_entry (h ! i) entry"
    from record_entry_merge [OF h i f] r
    have "st' = save_history (take 100 (h[i := ?m]))" by simp
    moreover have "map entry_fingerprint (h[i := ?m]) = map entry_fingerprint h"
      using i entry_fingerprint_merge [OF d i(2) f]
      by (simp add: map_update list_update_same_conv)
    ultimately show ?thesis using dh distinct_take_map [of entry_fingerprint "h[i := ?m]"] by auto
  qed
qed

lemma merge_entry_id:
  "dict_get (merge_entry p e) ''id'' = py_or (dict_get p ''id'') (dict_get e ''id'')"
  by (simp add: merge_entry_def Let_def dict_get_update)

lemma merge_entry_name:
  assumes "distinct (map fst e)"
  shows "dict_get (merge_entry p e) ''name'' =
         (let n = (case map_of e ''name'' of None \<Rightarrow> dict_get p ''name'' | Some v \<Rightarrow> v)
          in if \<not> truthy n \<and> truthy (dict_get p ''name'') then dict_get p ''name'' else n)"
  using assms by (simp add: merge_entry_def Let_def dict_get_update dict_get_merge)

lemma merge_entry_map_of:
  assumes "distinct (map fst e)" "k \<noteq> ''id''" "k \<noteq> ''name''"
  shows "map_of (merge_entry p e) k = (map_of p ++ map_of e) k"
  using assms by (simp add: merge_entry_def Let_def update_conv' map_of_dict_merge)

lemma record_entry_same_fingerprint:
  assumes h: "load_history st = Inr h" and len: "length h \<le> 100" and i: "i < length h"
    and fp: "entry_fingerprint entry = entry_fingerprint (h ! i)"
  shows "record_entry st entry = Inr (save_history (h[i := merge_entry (h ! i) entry]), entry)"
proof -
  from load_history_loadable [OF h, of "h ! i"] i
  obtain f where f: "entry_fingerprint (h ! i) = Inr f"
    by (auto simp: loadable_def split: sum.splits)
  from record_entry_merge [OF h i f] fp f len show ?thesis by simp
qed

section \<open>Unique fingerprints\<close>

text \<open>
  C3. The history that \<^verbatim>\<open>load_history\<close> returns has no two entries with the same
  fingerprint. When the file holds a list of entries, the result consists of exactly the
  entries at the positions where a fingerprint occurs for the first time, in the order of
  the file. The history that \<^verbatim>\<open>record_entry\<close> saves (for an entry that is a dict) has no
  two entries with the same fingerprint either.
\<close>

theorem history_fingerprints_unique:
  "(load_history st = Inr h \<longrightarrow> distinct (map entry_fingerprint h)) \<and>
   (load_history (Stored (JList (map JObj es))) = Inr h' \<longrightarrow>
      h' = nths es {i. i < length es \<and>
                       (\<forall>j<i. entry_fingerprint (es ! j) \<noteq> entry_fingerprint (es ! i))}) \<and>
   (distinct (map fst entry) \<and> record_entry st entry = Inr (st', res) \<longrightarrow>
      (\<exists>h''. st' = save_history h'' \<and> distinct (map entry_fingerprint h'')))"
proof (intro conjI impI)
  assume "load_history st = Inr h"
  then show "distinct (map entry_fingerprint h)" by (rule load_history_distinct)
next
  assume "load_history (Stored (JList (map JObj es))) = Inr h'"
  then have "load_loop (map JObj es) [] {} = Inr h'" by simp
  from load_loop_first_occurrences [OF this]
  show "h' = nths es {i. i < length es \<and>
                       (\<forall>j<i. entry_fingerprint (es ! j) \<noteq> entry_fingerprint (es ! i))}"
    by simp
next
  assume "distinct (map fst entry) \<and> record_entry st entry = Inr (st', res)"
  then show "\<exists>h''. st' = save_history h'' \<and> distinct (map entry_fingerprint h'')"
    using record_entry_distinct by blast
qed

theorem history_fingerprints_unique_witness:
  "load_history (Stored (JList [JObj sample_a, JObj sample_b, JObj sample_a_again]))
     = Inr [sample_a, sample_b] \<and>
   distinct (map entry_fingerprint [sample_a, sample_b]) \<and>
   [sample_a, sample_b] =
     nths [sample_a, sample_b, sample_a_again]
       {i. i < length [sample_a, sample_b, sample_a_again] \<and>
           (\<forall>j<i. entry_fingerprint ([sample_a, sample_b, sample_a_again] ! j)
                  \<noteq> entry_fingerprint ([sample_a, sample_b, sample_a_again] ! i))} \<and>
   distinct (map fst sample_c) \<and>
   record_entry (Stored (JList [JObj sample_a, JObj sample_b, JObj sample_a_again])) sample_c
     = Inr (save_history [sample_a, sample_b, sample_c], sample_c) \<and>
   (\<exists>h. save_history [sample_a, sample_b, sample_c] = save_history h \<and>
        distinct (map entry_fingerprint h))"
proof -
  let ?st = "Stored (JList [JObj sample_a, JObj sample_b, JObj sample_a_again])"
  have l: "load_history ?st = Inr [sample_a, sample_b]"
    by code_simp
  have l': "load_history (Stored (JList (map JObj [sample_a, sample_b, sample_a_again])))
            = Inr [sample_a, sample_b]"
    using l by simp
  have d: "distinct (map fst sample_c)"
    by code_simp
  have r: "record_entry ?st sample_c = Inr (save_history [sample_a, sample_b, sample_c], sample_c)"
    by code_simp
  from history_fingerprints_unique
         [of ?st "[sample_a, sample_b]" "[sample_a, sample_b, sample_a_again]"
             "[sample_a, sample_b]" sample_c "save_history [sample_a, sample_b, sample_c]" sample_c]
       l l' d r
  show ?thesis by blast
qed

section \<open>Merging\<close>

text \<open>
  C2. Let the loaded history have at most 100 entries and hold, at position \<^term>\<open>i\<close>, an
  entry with the fingerprint of the new entry (a dict). Then \<^verbatim>\<open>record_entry\<close> saves the
  history with the merged entry at position \<^term>\<open>i\<close> and every other position as it was.
  The merged entry has every field of the new entry other than \<^verbatim>\<open>id\<close> and \<^verbatim>\<open>name\<close> with
  the value of the new entry; its \<^verbatim>\<open>id\<close> is the one of the previous entry when that is
  truthy, and the one of the new entry otherwise; its \<^verbatim>\<open>name\<close> is the one of the new entry
  when that is truthy and otherwise the name of the previous entry (no name when the
  previous entry has none).
\<close>

theorem record_entry_merges_in_place:
  assumes "load_history st = Inr h" "length h \<le> 100" "i < length h"
    and "distinct (map fst entry)"
    and "entry_fingerprint entry = entry_fingerprint (h ! i)"
  shows "record_entry st entry = Inr (save_history (h[i := merge_entry (h ! i) entry]), entry) \<and>
         (\<forall>k v. map_of entry k = Some v \<and> k \<noteq> ''id'' \<and> k \<noteq> ''name'' \<longrightarrow>
                map_of (merge_entry (h ! i) entry) k = Some v) \<and>
         dict_get (merge_entry (h ! i) entry) ''id'' =
           (if truthy (dict_get (h ! i) ''id'') then dict_get (h ! i) ''id''
            else dict_get entry ''id'') \<and>
         (truthy (dict_get entry ''name'') \<longrightarrow>
            dict_get (merge_entry (h ! i) entry) ''name'' = dict_get entry ''name'') \<and>
         (\<not> truthy (dict_get entry ''name'') \<longrightarrow>
            (if truthy (dict_get (h ! i) ''name'')
             then dict_get (merge_entry (h ! i) entry) ''name'' = dict_get (h ! i) ''name''
             else \<not> truthy (dict_get (merge_entry (h ! i) entry) ''name'')))"
proof (intro conjI)
  show "record_entry st entry = Inr (save_history (h[i := merge_entry (h ! i) entry]), entry)"
    using assms(1,2,3,5) by (rule record_entry_same_fingerprint)
  show "\<forall>k v. map_of entry k = Some v \<and> k \<noteq> ''id'' \<and> k \<noteq> ''name'' \<longrightarrow>
              map_of (merge_entry (h ! i) entry) k = Some v"
    using assms(4) by (simp add: merge_entry_map_of)
  show "dict_get (merge_entry (h ! i) entry) ''id'' =
           (if truthy (dict_get (h ! i) ''id'') then dict_get (h ! i) ''id''
            else dict_get entry ''id'')"
    by (simp add: merge_entry_id py_or_def)
  show "truthy (dict_get entry ''name'') \<longrightarrow>
            dict_get (merge_entry (h ! i) entry) ''name'' = dict_get entry ''name''"
    unfolding merge_entry_name [OF assms(4)]
    by (auto simp: dict_get_def Let_def split: option.splits)
  show "\<not> truthy (dict_get entry ''name'') \<longrightarrow>
            (if truthy (dict_get (h ! i) ''name'')
             then dict_get (merge_entry (h ! i) entry) ''name'' = dict_get (h ! i) ''name''
             else \<not> truthy (dict_get (merge_entry (h ! i) entry) ''name''))"
    unfolding merge_entry_name [OF assms(4)]
    by (auto simp: dict_get_def Let_def split: option.splits)
qed

theorem record_entry_merges_in_place_witness:
  "load_history (save_history [sample_b, sample_a]) = Inr [sample_b, sample_a] \<and>
   length [sample_b, sample_a] \<le> 100 \<and> (1::nat) < length [sample_b, sample_a] \<and>
   distinct (map fst sample_a_again) \<and>
   entry_fingerprint sample_a_again = entry_fingerprint ([sample_b, sample_a] ! 1) \<and>
   record_entry (save_history [sample_b, sample_a]) sample_a_again
     = Inr (save_history [sample_b, merge_entry sample_a sample_a_again], sample_a_again) \<and>
   map_of (merge_entry sample_a sample_a_again) ''response_status'' = Some (JInt 404) \<and>
   dict_get sample_a ''id'' = JStr ''X'' \<and> dict_get sample_a_again ''id'' = JStr ''Y'' \<and>
   dict_get (merge_entry sample_a sample_a_again) ''id'' = JStr ''X'' \<and>
   dict_get sample_a ''name'' = JStr ''keep'' \<and> dict_get sample_a_again ''name'' = JStr '''' \<and>
   dict_get (merge_entry sample_a sample_a_again) ''name'' = JStr ''keep''"
proof -
  let ?h = "[sample_b, sample_a]"
  have l: "load_history (save_history ?h) = Inr ?h" by code_simp
  have n: "length ?h \<le> 100" "(1::nat) < length ?h" by simp_all
  have d: "distinct (map fst sample_a_again)" by code_simp
  have f: "entry_fingerprint sample_a_again = entry_fingerprint (?h ! 1)" by code_simp
  have s: "map_of sample_a_again ''response_status'' = Some (JInt 404)" by code_simp
  have g: "dict_get sample_a ''id'' = JStr ''X''" "dict_get sample_a_again ''id'' = JStr ''Y''"
    "dict_get sample_a ''name'' = JStr ''keep''" "dict_get sample_a_again ''name'' = JStr ''''"
    by code_simp+
  from record_entry_merges_in_place [OF l n d f] s g
  have "record_entry (save_history ?h) sample_a_again
          = Inr (save_history [sample_b, merge_entry sample_a sample_a_again], sample_a_again) \<and>
        map_of (merge_entry sample_a sample_a_again) ''response_status'' = Some (JInt 404) \<and>
        dict_get (merge_entry sample_a sample_a_again) ''id'' = JStr ''X'' \<and>
        dict_get (merge_entry sample_a sample_a_again) ''name'' = JStr ''keep''"
    by simp
  with l n d f g show ?thesis by simp
qed

text \<open>
  C10, as amended. Under the conditions of C2, a field that the previous entry has and the
  new entry lacks is in the merged entry with the value of the previous entry, provided
  the field is not an \<^verbatim>\<open>id\<close> with a falsy value other than \<^verbatim>\<open>None\<close>.
\<close>

theorem merge_entry_keeps_previous_fields:
  assumes "load_history st = Inr h" "length h \<le> 100" "i < length h"
    and "distinct (map fst entry)"
    and "entry_fingerprint entry = entry_fingerprint (h ! i)"
    and "map_of (h ! i) k = Some v" "map_of entry k = None"
    and "k = ''id'' \<longrightarrow> truthy v \<or> v = JNull"
  shows "record_entry st entry = Inr (save_history (h[i := merge_entry (h ! i) entry]), entry) \<and>
         map_of (merge_entry (h ! i) entry) k = Some v"
proof
  show "record_entry st entry = Inr (save_history (h[i := merge_entry (h ! i) entry]), entry)"
    using assms(1,2,3,5) by (rule record_entry_same_fingerprint)
  let ?p = "h ! i"
  have merged: "map_of (dict_merge ?p entry) k = Some v"
    using assms(4,6,7) by (simp add: map_of_dict_merge map_add_def)
  show "map_of (merge_entry ?p entry) k = Some v"
  proof (cases "k = ''id''")
    case True
    have "dict_get ?p ''id'' = v" "dict_get entry ''id'' = JNull"
      using assms(6,7) True by (simp_all add: dict_get_def)
    with assms(8) True have "py_or (dict_get ?p ''id'') (dict_get entry ''id'') = v"
      by (auto simp: py_or_def)
    with True show ?thesis
      by (simp add: merge_entry_def Let_def update_conv')
  next
    case False
    show ?thesis
    proof (cases "k = ''name''")
      case True
      have "dict_get ?p ''name'' = v"
        using assms(6) True by (simp add: dict_get_def)
      moreover have "dict_get (AList.update ''id'' x (dict_merge ?p entry)) ''name'' = v" for x
        using merged True by (simp add: dict_get_def update_conv')
      ultimately show ?thesis
        using merged True by (simp add: merge_entry_def Let_def update_conv')
    next
      case False
      with \<open>k \<noteq> ''id''\<close> merged show ?thesis
        by (simp add: merge_entry_def Let_def update_conv')
    qed
  qed
qed

text \<open>
  C10 as stated fails for an \<^verbatim>\<open>id\<close> that is the empty string: the stored entry
  has the field, the new entry has not, and the merged entry has \<^verbatim>\<open>None\<close> as its id.
\<close>

theorem merge_entry_drops_empty_id:
  "load_history (save_history [sample_empty_id]) = Inr [sample_empty_id] \<and>
   entry_fingerprint sample_partial = entry_fingerprint sample_empty_id \<and>
   map_of sample_empty_id ''id'' = Some (JStr '''') \<and>
   map_of sample_partial ''id'' = None \<and>
   record_entry (save_history [sample_empty_id]) sample_partial
     = Inr (save_history [merge_entry sample_empty_id sample_partial], sample_partial) \<and>
   map_of (merge_entry sample_empty_id sample_partial) ''id'' = Some JNull"
  by code_simp

theorem merge_entry_keeps_previous_fields_witness:
  "load_history (save_history [sample_a]) = Inr [sample_a] \<and>
   length [sample_a] \<le> 100 \<and> (0::nat) < length [sample_a] \<and>
   distinct (map fst sample_partial) \<and>
   entry_fingerprint sample_partial = entry_fingerprint ([sample_a] ! 0) \<and>
   map_of ([sample_a] ! 0) ''id'' = Some (JStr ''X'') \<and> map_of sample_partial ''id'' = None \<and>
   (truthy (JStr ''X'') \<or> JStr ''X'' = JNull) \<and>
   record_entry (save_history [sample_a]) sample_partial
     = Inr (save_history [merge_entry sample_a sample_partial], sample_partial) \<and>
   map_of (merge_entry sample_a sample_partial) ''id'' = Some (JStr ''X'')"
proof -
  let ?h = "[sample_a]"
  have l: "load_history (save_history ?h) = Inr ?h" by code_simp
  have n: "length ?h \<le> 100" "(0::nat) < length ?h" by simp_all
  have d: "distinct (map fst sample_partial)" by code_simp
  have f: "entry_fingerprint sample_partial = entry_fingerprint (?h ! 0)" by code_simp
  have p: "map_of (?h ! 0) ''id'' = Some (JStr ''X'')" by code_simp
  have e: "map_of sample_partial ''id'' = None" by code_simp
  have t: "(''id'' :: string) = ''id'' \<longrightarrow> truthy (JStr ''X'') \<or> JStr ''X'' = JNull" by simp
  from merge_entry_keeps_previous_fields [OF l n d f p e t] l n d f p e
  show ?thesis by simp
qed

section \<open>Recording the same entry twice\<close>

text \<open>
  C6. From an empty history, recording twice the same entry (a dict whose fingerprint can
  be computed and hashed) succeeds both times and leaves a history with exactly one entry.
\<close>

theorem record_entry_twice:
  assumes "load_history st = Inr []" "distinct (map fst entry)"
    and "entry_fingerprint entry = Inr f" "hashable_fingerprint f"
  shows "\<exists>st1 st2 merged.
           record_entry st entry = Inr (st1, entry) \<and>
           record_entry st1 entry = Inr (st2, entry) \<and>
           st2 = save_history [merged] \<and> load_history st2 = Inr [merged]"
proof -
  have l: "loadable entry" using assms(3,4) by (simp add: loadable_def)
  have 1: "record_entry st entry = Inr (save_history [entry], entry)"
    using record_entry_append [OF assms(1,3)] by simp
  have l1: "load_history (save_history [entry]) = Inr [entry]"
    using l by (simp add: load_save_history)
  have 2: "record_entry (save_history [entry]) entry
           = Inr (save_history [merge_entry entry entry], entry)"
    using record_entry_merge [OF l1, of 0 f entry] assms(3) by simp
  have "entry_fingerprint (merge_entry entry entry) = Inr f"
    using assms(2,3) by (simp add: entry_fingerprint_merge)
  with assms(4) have "loadable (merge_entry entry entry)" by (simp add: loadable_def)
  then have "load_history (save_history [merge_entry entry entry]) = Inr [merge_entry entry entry]"
    by (simp add: load_save_history)
  with 1 2 show ?thesis by blast
qed

theorem record_entry_twice_witness:
  "load_history Absent = Inr [] \<and> distinct (map fst sample_a) \<and>
   entry_fingerprint sample_a = Inr (''GET'', ''http://a'', [], JStr '''') \<and>
   hashable_fingerprint (''GET'', ''http://a'', [], JStr '''') \<and>
   (\<exists>st1 st2 merged.
      record_entry Absent sample_a = Inr (st1, sample_a) \<and>
      record_entry st1 sample_a = Inr (st2, sample_a) \<and>
      st2 = save_history [merged] \<and> load_history st2 = Inr [merged])"
proof -
  have l: "load_history Absent = Inr []" by simp
  have d: "distinct (map fst sample_a)" by code_simp
  have f: "entry_fingerprint sample_a = Inr (''GET'', ''http://a'', [], JStr '''')" by code_simp
  have h: "hashable_fingerprint (''GET'', ''http://a'', [], JStr '''')" by code_simp
  from record_entry_twice [OF l d f h] l d f h show ?thesis by blast
qed

section \<open>Removing\<close>

lemma length_filter_eq_iff: "length (filter P xs) = length xs \<longleftrightarrow> (\<forall>x\<in>set xs. P x)"
proof (cases "\<forall>x\<in>set xs. P x")
  case True
  then show ?thesis by simp
next
  case False
  then obtain x where "x \<in> set xs" "\<not> P x" by blast
  then have "length (filter P xs) < length xs" by (rule length_filter_less)
  with False show ?thesis by simp
qed

text \<open>
  C9. \<^verbatim>\<open>remove_entry\<close> returns \<^verbatim>\<open>True\<close> exactly when an entry of the loaded history has the
  given id as its \<^verbatim>\<open>str(item.get("id"))\<close>. Then it saves the history without the entries of
  that id. Otherwise it returns \<^verbatim>\<open>False\<close> and the file is the one it found.
\<close>

theorem remove_entry_result:
  assumes "load_history st = Inr h"
  shows "remove_entry st entry_id =
         (if \<exists>item\<in>set h. id_str item = entry_id
          then Inr (save_history (filter (\<lambda>item. id_str item \<noteq> entry_id) h), True)
          else Inr (st, False))"
  using assms by (simp add: remove_entry_def Let_def length_filter_eq_iff)

theorem remove_entry_result_witness:
  "load_history (save_history [sample_a, sample_b]) = Inr [sample_a, sample_b] \<and>
   remove_entry (save_history [sample_a, sample_b]) ''Z'' = Inr (save_history [sample_a], True) \<and>
   remove_entry (save_history [sample_a, sample_b]) ''Q''
     = Inr (save_history [sample_a, sample_b], False)"
proof -
  let ?h = "[sample_a, sample_b]"
  have l: "load_history (save_history ?h) = Inr ?h" by code_simp
  have i: "id_str sample_a = ''X''" "id_str sample_b = ''Z''" by code_simp+
  from remove_entry_result [OF l, of "''Z''"] remove_entry_result [OF l, of "''Q''"] l i
  show ?thesis by simp
qed

section \<open>The cap\<close>

lemma dropWhile_hd: "s \<noteq> [] \<Longrightarrow> \<not> P (hd s) \<Longrightarrow> dropWhile P s = s"
  by (cases s) auto

lemma strip_id:
  assumes "s \<noteq> []" "\<not> is_space (hd s)" "\<not> is_space (last s)"
  shows "strip s = s"
proof -
  have "dropWhile is_space s = s"
    using assms(1,2) by (rule dropWhile_hd)
  moreover have "dropWhile is_space (rev s) = rev s"
    using assms(1,3) by (intro dropWhile_hd) (simp_all add: hd_rev)
  ultimately show ?thesis by (simp add: strip_def)
qed

lemma strip_sample_url: "strip (sample_url n) = sample_url n"
proof (rule strip_id)
  show "sample_url n \<noteq> []" by (simp add: sample_url_def)
  show "\<not> is_space (hd (sample_url n))" by (simp add: sample_url_def is_space_def)
  show "\<not> is_space (last (sample_url n))"
    by (cases n) (simp_all add: sample_url_def is_space_def)
qed

lemma sample_url_inj: "sample_url m = sample_url n \<longleftrightarrow> m = n"
proof
  assume "sample_url m = sample_url n"
  then have "length (sample_url m) = length (sample_url n)" by simp
  then show "m = n" by (simp add: sample_url_def)
qed simp

lemma upper_GET: "upper ''GET'' = ''GET''"
  by code_simp

lemma fingerprint_numbered_entry:
  "entry_fingerprint (numbered_entry n) = Inr (''GET'', sample_url n, [], JStr '''')"
proof -
  have u: "sample_url n \<noteq> []" by (simp add: sample_url_def)
  have s: "sort (normalized_headers []) = []"
    by (simp add: normalized_headers_def py_dict_def dict_merge_def)
  show ?thesis
    using u by (simp add: numbered_entry_def new_entry_def entry_fingerprint_def dict_get_def
        py_or_def s upper_GET strip_sample_url)
qed

lemma loadable_numbered_entry: "loadable (numbered_entry n)"
  by (simp add: loadable_def fingerprint_numbered_entry hashable_fingerprint_def)

lemma distinct_numbered_entries: "distinct (map entry_fingerprint (map numbered_entry [0..<k]))"
  by (simp add: distinct_map inj_on_def fingerprint_numbered_entry sample_url_inj)

lemma record_entry_length:
  assumes "record_entry st entry = Inr (st', res)"
  shows "\<exists>h'. st' = save_history h' \<and> length h' \<le> 100"
proof -
  from assms obtain h where h: "load_history st = Inr h"
    by (cases "load_history st") (simp_all add: record_entry_def)
  from assms h obtain f where f: "entry_fingerprint entry = Inr f"
    by (cases "entry_fingerprint entry") (simp_all add: record_entry_def)
  from assms h f obtain h' where "st' = save_history (take 100 h')"
    by (auto simp: record_entry_def Let_def)
  then show ?thesis by (intro exI [of _ "take 100 h'"]) simp
qed

text \<open>
  C1. \<^verbatim>\<open>record_entry\<close> never saves more than 100 entries (\<open>record_entry_length\<close>). It
  appends a new entry at the end and then keeps the first 100 entries, so what it drops
  is the end of the list. With 100 entries stored, an entry with a new fingerprint is
  appended and dropped at once: the file keeps its 100 entries and the new entry is not
  among them.
\<close>

theorem record_entry_full_history_drops_new_entry:
  "load_history (save_history full_history) = Inr full_history \<and>
   length full_history = 100 \<and>
   entry_fingerprint fresh_entry \<notin> entry_fingerprint ` set full_history \<and>
   fresh_entry \<notin> set full_history \<and>
   record_entry (save_history full_history) fresh_entry
     = Inr (save_history full_history, fresh_entry)"
proof -
  have l: "load_history (save_history full_history) = Inr full_history"
    unfolding full_history_def
  proof (rule load_save_history)
    show "\<forall>e\<in>set (map numbered_entry [0..<100]). loadable e"
      by (simp add: loadable_numbered_entry)
    show "distinct (map entry_fingerprint (map numbered_entry [0..<100]))"
      by (rule distinct_numbered_entries)
  qed
  have n: "length full_history = 100"
    by (simp add: full_history_def)
  have f: "entry_fingerprint fresh_entry = Inr (''GET'', sample_url 100, [], JStr '''')"
    by (simp add: fresh_entry_def fingerprint_numbered_entry)
  have new: "Inr (''GET'', sample_url 100, [], JStr '''') \<notin> entry_fingerprint ` set full_history"
    by (auto simp: full_history_def fingerprint_numbered_entry sample_url_inj)
  then have "fresh_entry \<notin> set full_history"
    using f by force
  moreover have "record_entry (save_history full_history) fresh_entry
                 = Inr (save_history full_history, fresh_entry)"
    using record_entry_append [OF l f new] n by simp
  ultimately show ?thesis using l n f new by simp
qed

section \<open>Reordering\<close>

lemma remdups_snoc: "remdups (ys @ [x]) = filter (\<lambda>y. y \<noteq> x) (remdups ys) @ [x]"
  by (induction ys) auto

lemma first_occurrences_Cons:
  "first_occurrences (x # xs) = x # filter (\<lambda>y. y \<noteq> x) (first_occurrences xs)"
  by (simp add: first_occurrences_def remdups_snoc rev_filter)

lemma by_id_of_snoc: "by_id_of (h @ [x]) = (by_id_of h)(id_str x \<mapsto> x)"
  by (simp add: by_id_of_def)

lemma filter_id_distinct:
  "distinct (map id_str h) \<Longrightarrow>
   filter (\<lambda>e. id_str e = i) h = (case by_id_of h i of None \<Rightarrow> [] | Some e \<Rightarrow> [e])"
proof (induction h rule: rev_induct)
  case Nil
  then show ?case by (simp add: by_id_of_def)
next
  case (snoc x h)
  show ?case
  proof (cases "id_str x = i")
    case True
    from snoc.prems have "id_str x \<notin> id_str ` set h" by simp
    with True have "\<forall>e\<in>set h. id_str e \<noteq> i" by (metis imageI)
    then have "filter (\<lambda>e. id_str e = i) h = []"
      by (simp add: filter_empty_conv)
    with True show ?thesis by (simp add: by_id_of_snoc)
  next
    case False
    with snoc show ?thesis by (simp add: by_id_of_snoc)
  qed
qed

lemma by_id_of_in_set: "by_id_of h i = Some e \<Longrightarrow> e \<in> set h"
  by (induction h arbitrary: e rule: rev_induct)
     (auto simp: by_id_of_snoc by_id_of_def split: if_splits)

lemma concat_map_filter_empty:
  "g x = [] \<Longrightarrow> concat (map g (filter (\<lambda>y. y \<noteq> x) xs)) = concat (map g xs)"
  by (induction xs) auto

lemma reorder_first_result:
  "reorder_first by_id order new_history seen =
     (new_history @ concat (map (found by_id) (filter (\<lambda>i. i \<notin> seen) (first_occurrences order))),
      seen \<union> {i \<in> set order. found by_id i \<noteq> []})"
proof (induction order arbitrary: new_history seen)
  case Nil
  then show ?case by (simp add: first_occurrences_def)
next
  case (Cons i order)
  let ?F = "first_occurrences order"
  let ?g = "found by_id"
  show ?case
  proof (cases "found by_id i \<noteq> [] \<and> i \<notin> seen")
    case True
    then obtain e where e: "by_id i = Some e" "e \<noteq> []" "found by_id i = [e]"
      by (auto simp: found_def split: option.splits if_splits)
    have "filter (\<lambda>j. j \<notin> insert i seen) ?F = filter (\<lambda>j. j \<notin> seen) (filter (\<lambda>y. y \<noteq> i) ?F)"
      by (auto intro: filter_cong)
    moreover have "insert i seen \<union> {j \<in> set order. found by_id j \<noteq> []}
                   = seen \<union> {j \<in> set (i # order). found by_id j \<noteq> []}"
      using e by auto
    ultimately show ?thesis
      using True e Cons.IH [of "new_history @ [e]" "insert i seen"]
      by (simp add: first_occurrences_Cons del: filter_filter)
  next
    case False
    have step: "reorder_first by_id (i # order) new_history seen
                = reorder_first by_id order new_history seen"
      using False by (auto simp: found_def split: option.splits)
    have sets: "seen \<union> {j \<in> set order. found by_id j \<noteq> []}
                   = seen \<union> {j \<in> set (i # order). found by_id j \<noteq> []}"
      using False by auto
    have "concat (map ?g (filter (\<lambda>j. j \<notin> seen) (first_occurrences (i # order))))
          = concat (map ?g (filter (\<lambda>j. j \<notin> seen) ?F))"
    proof (cases "i \<in> seen")
      case True
      then have "filter (\<lambda>j. j \<notin> seen) (filter (\<lambda>y. y \<noteq> i) ?F) = filter (\<lambda>j. j \<notin> seen) ?F"
        by (auto intro: filter_cong)
      with True show ?thesis by (simp add: first_occurrences_Cons del: filter_filter)
    next
      case notin: False
      with False have empty: "found by_id i = []" by simp
      have "concat (map ?g (filter (\<lambda>j. j \<notin> seen) (first_occurrences (i # order))))
            = concat (map ?g (filter (\<lambda>j. j \<notin> seen) (filter (\<lambda>y. y \<noteq> i) ?F)))"
        using notin empty by (simp add: first_occurrences_Cons del: filter_filter)
      also have "filter (\<lambda>j. j \<notin> seen) (filter (\<lambda>y. y \<noteq> i) ?F)
            = filter (\<lambda>y. y \<noteq> i) (filter (\<lambda>j. j \<notin> seen) ?F)"
        by (auto intro: filter_cong)
      also have "concat (map ?g (filter (\<lambda>y. y \<noteq> i) (filter (\<lambda>j. j \<notin> seen) ?F)))
                 = concat (map ?g (filter (\<lambda>j. j \<notin> seen) ?F))"
        using empty by (rule concat_map_filter_empty)
      finally show ?thesis .
    qed
    with step sets Cons.IH [of new_history seen] show ?thesis by simp
  qed
qed

lemma reorder_rest_result:
  "distinct (map id_str h) \<Longrightarrow>
   reorder_rest h new_history seen = new_history @ filter (\<lambda>e. id_str e \<notin> seen) h"
proof (induction h arbitrary: new_history seen)
  case Nil
  then show ?case by simp
next
  case (Cons x h)
  from Cons.prems have "id_str x \<notin> id_str ` set h" by simp
  then have "\<forall>e\<in>set h. id_str e \<noteq> id_str x" by (metis imageI)
  then have "filter (\<lambda>e. id_str e \<notin> insert (id_str x) seen) h = filter (\<lambda>e. id_str e \<notin> seen) h"
    by (intro filter_cong) auto
  with Cons show ?case by (simp add: Let_def)
qed

text \<open>
  C7. Let the loaded history have pairwise different ids and no empty entry. Then
  \<^verbatim>\<open>reorder_entries\<close> returns, and saves, the entries whose ids occur in \<^term>\<open>order\<close>, each
  once, in the order of the first occurrences of their ids, followed by the entries whose
  ids do not occur in \<^term>\<open>order\<close>, in the order of the history. An id of no entry
  contributes nothing. For the empty \<^term>\<open>order\<close> the history is returned, and saved, as it
  was loaded.
\<close>

theorem reorder_entries_result:
  assumes "load_history st = Inr h" "distinct (map id_str h)" "[] \<notin> set h"
  shows "reorder_entries st order =
           Inr (save_history
                  (concat (map (\<lambda>i. filter (\<lambda>e. id_str e = i) h) (first_occurrences order)) @
                   filter (\<lambda>e. id_str e \<notin> set order) h),
                concat (map (\<lambda>i. filter (\<lambda>e. id_str e = i) h) (first_occurrences order)) @
                filter (\<lambda>e. id_str e \<notin> set order) h) \<and>
         reorder_entries st [] = Inr (save_history h, h)"
proof -
  define matched where
    "matched order' = concat (map (\<lambda>i. filter (\<lambda>e. id_str e = i) h) (first_occurrences order'))"
    for order' :: "string list"
  define known where "known order' = {i \<in> set order'. found (by_id_of h) i \<noteq> []}"
    for order' :: "string list"
  have f: "found (by_id_of h) = (\<lambda>i. filter (\<lambda>e. id_str e = i) h)"
  proof
    fix i
    show "found (by_id_of h) i = filter (\<lambda>e. id_str e = i) h"
      using assms(3) by_id_of_in_set [of h i]
      by (auto simp: found_def filter_id_distinct [OF assms(2)] split: option.splits)
  qed
  have first: "reorder_first (by_id_of h) order' [] {} = (matched order', known order')" for order'
    by (simp add: reorder_first_result f matched_def known_def)
  have "filter (\<lambda>e. id_str e \<notin> known order') h = filter (\<lambda>e. id_str e \<notin> set order') h" for order'
    unfolding known_def f by (rule filter_cong) (auto simp: filter_empty_conv)
  then have rest: "reorder_rest h (matched order') (known order')
              = matched order' @ filter (\<lambda>e. id_str e \<notin> set order') h" for order'
    by (simp add: reorder_rest_result [OF assms(2)])
  have "reorder_entries st order' =
          Inr (save_history (matched order' @ filter (\<lambda>e. id_str e \<notin> set order') h),
               matched order' @ filter (\<lambda>e. id_str e \<notin> set order') h)" for order'
    using assms(1) by (simp add: reorder_entries_def first rest Let_def)
  from this [of order] this [of "[]"] show ?thesis
    by (simp add: matched_def first_occurrences_def)
qed

theorem reorder_entries_result_witness:
  "load_history (save_history [sample_a, sample_b, sample_c]) = Inr [sample_a, sample_b, sample_c] \<and>
   distinct (map id_str [sample_a, sample_b, sample_c]) \<and>
   [] \<notin> set [sample_a, sample_b, sample_c] \<and>
   reorder_entries (save_history [sample_a, sample_b, sample_c]) [''Z'', ''X'', ''Z'', ''unknown'']
     = Inr (save_history [sample_b, sample_a, sample_c], [sample_b, sample_a, sample_c]) \<and>
   reorder_entries (save_history [sample_a, sample_b, sample_c]) []
     = Inr (save_history [sample_a, sample_b, sample_c], [sample_a, sample_b, sample_c])"
proof -
  let ?h = "[sample_a, sample_b, sample_c]"
  have l: "load_history (save_history ?h) = Inr ?h" by code_simp
  have i: "id_str sample_a = ''X''" "id_str sample_b = ''Z''" "id_str sample_c = ''W''"
    by code_simp+
  have d: "distinct (map id_str ?h)" by (simp add: i)
  have n: "[] \<notin> set ?h" by code_simp
  from reorder_entries_result [OF l d n, of "[''Z'', ''X'', ''Z'', ''unknown'']"] l d n i
  show ?thesis by (simp add: first_occurrences_def)
qed

section \<open>Fingerprints and the order of the headers\<close>

lemma entry_fingerprint_cong:
  assumes "dict_get a ''headers'' = dict_get b ''headers''"
    "dict_get a ''method'' = dict_get b ''method''"
    "dict_get a ''url'' = dict_get b ''url''"
    "py_or (dict_get a ''body'') (JStr '''') = py_or (dict_get b ''body'') (JStr '''')"
  shows "entry_fingerprint a = entry_fingerprint b"
  unfolding entry_fingerprint_def assms by (rule refl)

lemma entry_fingerprint_empty_body:
  "map_of entry ''body'' = None \<Longrightarrow>
   entry_fingerprint (AList.update ''body'' (JStr '''') entry) = entry_fingerprint entry"
  by (rule entry_fingerprint_cong) (simp_all add: dict_get_update, simp add: dict_get_def py_or_def)

lemma fold_update_fresh:
  "distinct (map fst xs) \<Longrightarrow> fst ` set xs \<inter> fst ` set acc = {} \<Longrightarrow>
   fold (\<lambda>(k, v). AList.update k v) xs acc = acc @ xs"
proof (induction xs arbitrary: acc)
  case Nil
  then show ?case by simp
next
  case (Cons kv xs)
  obtain k v where kv: "kv = (k, v)" by (cases kv)
  from Cons.prems kv have "k \<notin> fst ` set acc" by auto
  then have u: "AList.update k v acc = acc @ [(k, v)]"
    by (induction acc) auto
  have "fst ` set xs \<inter> fst ` set (acc @ [(k, v)]) = {}"
    using Cons.prems kv by auto
  with Cons.IH [of "acc @ [(k, v)]"] Cons.prems kv u show ?case by simp
qed

lemma py_dict_distinct: "distinct (map fst xs) \<Longrightarrow> py_dict xs = xs"
  using fold_update_fresh [of xs "[]"] by (simp add: py_dict_def dict_merge_def)

lemma entry_fingerprint_header_order:
  assumes "mset hs = mset hs'" "distinct (map (\<lambda>kv. strip (fst kv)) hs)"
  shows "entry_fingerprint (AList.update ''headers'' (JObj hs) entry)
         = entry_fingerprint (AList.update ''headers'' (JObj hs') entry)"
proof -
  let ?g = "\<lambda>(k, v). (strip k, strip (py_str v))"
  have fst_g: "map fst (map ?g xs) = map (\<lambda>kv. strip (fst kv)) xs" for xs :: "(string \<times> json) list"
    by (induction xs) auto
  have "mset (map (\<lambda>kv. strip (fst kv)) hs') = mset (map (\<lambda>kv. strip (fst kv)) hs)"
    using assms(1) by simp
  then have d': "distinct (map (\<lambda>kv. strip (fst kv)) hs')"
    using assms(2) by (metis mset_eq_imp_distinct_iff)
  have dg: "distinct (map fst (map ?g hs))" "distinct (map fst (map ?g hs'))"
    using assms(2) d' by (simp_all only: fst_g)
  have "normalized_headers hs = map ?g hs" "normalized_headers hs' = map ?g hs'"
    unfolding normalized_headers_def
    by (rule py_dict_distinct [OF dg(1)], rule py_dict_distinct [OF dg(2)])
  moreover have "mset (map ?g hs) = mset (map ?g hs')"
    using assms(1) by simp
  ultimately have s: "sort (normalized_headers hs) = sort (normalized_headers hs')"
    by (metis mset_sort properties_for_sort sorted_sort)
  have a: "py_or (dict_get (AList.update ''headers'' (JObj x) entry) ''headers'') (JObj []) = JObj x"
    for x by (cases x) (simp_all add: dict_get_update py_or_def)
  have b: "dict_get (AList.update ''headers'' (JObj x) entry) ''method'' = dict_get entry ''method''"
    "dict_get (AList.update ''headers'' (JObj x) entry) ''url'' = dict_get entry ''url''"
    "dict_get (AList.update ''headers'' (JObj x) entry) ''body'' = dict_get entry ''body''"
    for x by (simp_all add: dict_get_update)
  show ?thesis
    unfolding entry_fingerprint_def a b items.simps sum.case Let_def s by (rule refl)
qed

text \<open>
  C5. An entry without a body and the same entry with the empty string as its body have
  the same fingerprint (\<open>entry_fingerprint_empty_body\<close>), and the fingerprint does not
  depend on the order of the headers as long as their stripped keys are pairwise different
  (\<open>entry_fingerprint_header_order\<close>). When two keys of the headers are the same once
  stripped, the dict comprehension keeps the value of the later one, and the order of the
  headers decides the fingerprint: the two requests below have the same headers and
  different fingerprints.
\<close>

theorem entry_fingerprint_depends_on_header_order:
  "set headers_one_order = set headers_other_order \<and>
   entry_fingerprint request_one_order
     = Inr (''GET'', ''http://a'', [(''Accept'', ''application/json'')], JStr '''') \<and>
   entry_fingerprint request_other_order
     = Inr (''GET'', ''http://a'', [(''Accept'', ''text/html'')], JStr '''') \<and>
   entry_fingerprint request_one_order \<noteq> entry_fingerprint request_other_order"
  by code_simp

section \<open>Outcomes of the external request\<close>

text \<open>What each outcome of the library calls gives.\<close>

lemma send_external_request_URLError:
  "urlopen (build_request method url headers body) = URLError reason \<Longrightarrow>
   send_external_request urlopen get_content_charset decode method url headers body
     = Inr (599, [], ''Request failed: '' @ reason)"
  by (simp add: send_external_request_def)

lemma send_external_request_Raised:
  "urlopen (build_request method url headers body) = Raised c \<Longrightarrow>
   send_external_request urlopen get_content_charset decode method url headers body
     = Inl (Uncaught c)"
  by (simp add: send_external_request_def)

lemma send_external_request_HTTPError_as_Response:
  assumes "urlopen (build_request method url headers body) = HTTPError code (Some hs) response_body"
    and "hs \<noteq> []"
    and "urlopen' (build_request method url headers body) = Response code hs response_body"
  shows "send_external_request urlopen get_content_charset decode method url headers body
         = send_external_request urlopen' get_content_charset decode method url headers body"
  using assms by (simp add: send_external_request_def)

lemma send_external_request_returns_iff:
  "(\<exists>res. send_external_request urlopen get_content_charset decode method url headers body = Inr res)
   \<longleftrightarrow> (case urlopen (build_request method url headers body) of
          Raised c \<Rightarrow> False
        | URLError reason \<Rightarrow> True
        | Response status hs response_body \<Rightarrow>
            decode (charset_or_utf8 (get_content_charset hs)) response_body \<noteq> None
        | HTTPError code exc_headers response_body \<Rightarrow>
            decode (charset_or_utf8
                      (case exc_headers of
                         None \<Rightarrow> None
                       | Some hs \<Rightarrow> if hs \<noteq> [] then get_content_charset hs else None))
              response_body \<noteq> None)"
  by (auto simp: send_external_request_def decoded_def split: outcome.splits option.splits)

text \<open>
  C8. When \<^verbatim>\<open>urlopen\<close> raises \<^verbatim>\<open>URLError\<close>, \<^verbatim>\<open>send_external_request\<close> returns the status 599,
  no headers and the text of the failure, and an \<^verbatim>\<open>HTTPError\<close> is treated as the response
  with its status, headers and body. But not every failure that keeps a status line from
  being read is a \<^verbatim>\<open>URLError\<close>. A server that closes the connection without an answer
  makes the library raise \<^verbatim>\<open>RemoteDisconnected\<close>, and a string without a scheme makes
  \<^verbatim>\<open>Request(...)\<close> raise \<^verbatim>\<open>ValueError\<close>: both leave \<^verbatim>\<open>send_external_request\<close>, and no
  status 599 is returned. On the sample network the host without an address gives 599
  and the other two requests raise.
\<close>

theorem send_external_request_lets_failures_escape:
  "send_external_request sample_network sample_charset sample_decode
       ''get'' ''http://bad.invalid/'' [] NoBody
     = Inr (599, [], ''Request failed: [Errno -2] Name or service not known'') \<and>
   send_external_request sample_network sample_charset sample_decode
       ''get'' ''http://hangup.test/'' [] NoBody
     = Inl (Uncaught ''RemoteDisconnected'') \<and>
   send_external_request sample_network sample_charset sample_decode
       ''get'' ''abc'' [] NoBody
     = Inl (Uncaught ''ValueError'') \<and>
   send_external_request sample_network sample_charset sample_decode
       ''get'' ''http://a/missing'' [] NoBody
     = Inr (404, [(''Server'', ''x'')], ''not here'')"
  by code_simp

end
